theory Spec2Isabelle
  imports Main "HOL-Library.Word"
begin

section \<open>Data model of stringhashtable.c\<close>

text \<open>
  All integers of the program are \<^verbatim>\<open>unsigned int\<close>: 32-bit words whose arithmetic
  wraps around.
\<close>

type_synonym u32 = "32 word"

text \<open>
  \<^verbatim>\<open>struct hashtable_entry_t { char* key; unsigned int val; struct hashtable_entry_t* next; }\<close>.
  A key is the content of a NUL-terminated C string: the characters before the
  terminator. The \<^verbatim>\<open>next\<close> pointers of a bucket form an unshared singly linked
  list, so a chain is the list of its entries from head to tail and the null pointer
  is the empty chain.
\<close>

record hashtable_entry =
  key :: string
  val :: u32

type_synonym chain = "hashtable_entry list"

text \<open>
  \<^verbatim>\<open>struct hashtable_t { unsigned int size; unsigned int different_entries;
  unsigned int collisions; struct hashtable_entry_t** table; }\<close>.
  The field \<^verbatim>\<open>size\<close> is named \<open>size_ht\<close> here.
\<close>

record hashtable =
  size_ht :: u32
  different_entries :: u32
  collisions :: u32
  table :: "chain list"

text \<open>
  Behaviour the C standard leaves undefined is a value of the model: the remainder of a
  division by zero, an access to the bucket array outside its bounds, and
  \<^verbatim>\<open>strcpy\<close> writing past the 65 bytes allocated for an entry's key.
  Allocation is taken to succeed (the branches that print an error and
  \<^verbatim>\<open>exit\<close> after a failed \<^verbatim>\<open>malloc\<close> are not part of the model).
\<close>

datatype fault = DivByZero | OutOfBounds | BufferOverflow

section \<open>The hash function\<close>

text \<open>
  \<^verbatim>\<open>(int)(*ch)\<close>: the value of a \<^verbatim>\<open>char\<close> as an \<^verbatim>\<open>int\<close>. Plain
  \<^verbatim>\<open>char\<close> is taken to be signed (as on x86), so the bytes from 128 on are
  negative; the bytes below 128 have the same value under either convention.
\<close>

definition char_int :: "char \<Rightarrow> int" where
  "char_int ch = (if (of_char ch :: nat) < 128 then int (of_char ch) else int (of_char ch) - 256)"

text \<open>
  The loop body \<^verbatim>\<open>hash = ((int)(*ch) + (hash << 5) + hash) % hashtable_size\<close>.
  The sum is computed in \<^verbatim>\<open>unsigned int\<close> (the \<^verbatim>\<open>int\<close> operand is
  converted), so it wraps modulo \<open>2 ^ 32\<close> before the remainder is taken.
\<close>

fun gethash_loop :: "u32 \<Rightarrow> string \<Rightarrow> u32 \<Rightarrow> fault + u32" where
  "gethash_loop hashtable_size [] hash = Inr hash"
| "gethash_loop hashtable_size (ch # rest) hash =
     (if hashtable_size = 0 then Inl DivByZero
      else gethash_loop hashtable_size rest
             ((word_of_int (char_int ch) + push_bit 5 hash + hash) mod hashtable_size))"

definition hashtable_gethash :: "u32 \<Rightarrow> string \<Rightarrow> fault + u32" where
  "hashtable_gethash hashtable_size k = gethash_loop hashtable_size k 0"

text \<open>
  The hash as the specification words it: a fold over the characters from left to
  right, starting at 0, with \<open>h = (c + h * 33) mod m\<close> after every character, \<open>c\<close>
  the character's ordinal value, over the natural numbers.
\<close>

definition horner_spec :: "nat \<Rightarrow> string \<Rightarrow> nat" where
  "horner_spec m k = foldl (\<lambda>h c. (of_char c + h * 33) mod m) 0 k"

section \<open>Creating a table\<close>

text \<open>
  \<^verbatim>\<open>hashtable_newhashtable\<close>: the null pointer when \<open>size < 2\<close>, otherwise a table
  of \<open>size\<close> buckets, each set to the null pointer by the initialising loop, with both
  counters 0.
\<close>

definition hashtable_newhashtable :: "u32 \<Rightarrow> hashtable option" where
  "hashtable_newhashtable sz =
     (if sz < 2 then None
      else Some \<lparr>size_ht = sz, different_entries = 0, collisions = 0,
                 table = replicate (unat sz) []\<rparr>)"

section \<open>Entries\<close>

text \<open>
  \<^verbatim>\<open>hashtable_newentry\<close>: the null pointer for a null key; otherwise a fresh entry
  with \<^verbatim>\<open>next = NULL\<close>. The key is copied by \<^verbatim>\<open>strcpy\<close> into a
  buffer of 65 bytes, which holds at most 64 characters and the terminator.
\<close>

definition hashtable_newentry :: "string option \<Rightarrow> u32 \<Rightarrow> fault + hashtable_entry option" where
  "hashtable_newentry ko v =
     (case ko of
        None \<Rightarrow> Inr None
      | Some k \<Rightarrow>
          if 65 < length k + 1 then Inl BufferOverflow
          else Inr (Some \<lparr>key = k, val = v\<rparr>))"

text \<open>The chain an entry pointer of \<^verbatim>\<open>hashtable_newentry\<close> designates.\<close>

definition chain_of :: "hashtable_entry option \<Rightarrow> chain" where
  "chain_of p = (case p of None \<Rightarrow> [] | Some e \<Rightarrow> [e])"

section \<open>Insert\<close>

text \<open>
  The search loop of \<^verbatim>\<open>hashtable_insert\<close>, entered with a non-null
  \<^verbatim>\<open>current_entry\<close> (here \<open>cur\<close>, followed by \<open>rest\<close>):
  \<^verbatim>\<open>while(true) { if(strcmp(current_entry->key, key) == 0) { found = true; break; }
  if(current_entry->next == NULL) break; current_entry = current_entry->next; }\<close>.
  The result is the position in the chain of \<^verbatim>\<open>current_entry\<close> at the exit of
  the loop, and \<^verbatim>\<open>found\<close>.
\<close>

fun insert_search :: "hashtable_entry \<Rightarrow> chain \<Rightarrow> string \<Rightarrow> nat \<times> bool" where
  "insert_search cur rest k =
     (if key cur = k then (0, True)
      else (case rest of
              [] \<Rightarrow> (0, False)
            | nxt # rest' \<Rightarrow> (case insert_search nxt rest' k of (j, found) \<Rightarrow> (Suc j, found))))"

text \<open>
  \<^verbatim>\<open>hashtable_insert\<close>. The result is the table after the call (\<open>None\<close> for a
  null table pointer) and the entry the returned pointer designates (\<open>None\<close> for the
  null pointer). Writing \<^verbatim>\<open>current_entry->next\<close> replaces whatever followed the
  entry at position \<open>j\<close>.
\<close>

definition hashtable_insert ::
  "hashtable option \<Rightarrow> string option \<Rightarrow> u32 \<Rightarrow> fault + (hashtable option \<times> hashtable_entry option)" where
  "hashtable_insert htable ko v =
     (case htable of
        None \<Rightarrow> Inr (None, None)
      | Some t \<Rightarrow>
     (case ko of
        None \<Rightarrow> Inr (Some t, None)
      | Some k \<Rightarrow>
     (case hashtable_gethash (size_ht t) k of
        Inl f \<Rightarrow> Inl f
      | Inr hash \<Rightarrow>
          if length (table t) \<le> unat hash then Inl OutOfBounds
          else
            (case table t ! unat hash of
               [] \<Rightarrow>
                 (case hashtable_newentry (Some k) v of
                    Inl f \<Rightarrow> Inl f
                  | Inr new_entry \<Rightarrow>
                      Inr (Some (t\<lparr>table := (table t)[unat hash := chain_of new_entry],
                                   different_entries := different_entries t + 1\<rparr>),
                           new_entry))
             | cur # rest \<Rightarrow>
                 (case insert_search cur rest k of
                    (j, True) \<Rightarrow>
                      Inr (Some (t\<lparr>table := (table t)[unat hash :=
                                     (cur # rest)[j := ((cur # rest) ! j)\<lparr>val := v\<rparr>]]\<rparr>),
                           Some (((cur # rest) ! j)\<lparr>val := v\<rparr>))
                  | (j, False) \<Rightarrow>
                      (case hashtable_newentry (Some k) v of
                         Inl f \<Rightarrow> Inl f
                       | Inr new_entry \<Rightarrow>
                           Inr (Some (t\<lparr>table := (table t)[unat hash :=
                                          take (Suc j) (cur # rest) @ chain_of new_entry],
                                        collisions := collisions t + 1\<rparr>),
                                new_entry)))))))"

section \<open>Delete\<close>

text \<open>
  The search loop of \<^verbatim>\<open>hashtable_delete\<close>:
  \<^verbatim>\<open>while(current_entry != NULL && strcmp(current_entry->key, key) != 0)
  { previous_entry = current_entry; current_entry = current_entry->next; }\<close>.
  The result is the number of iterations \<open>j\<close>: at the exit \<^verbatim>\<open>current_entry\<close>
  designates the chain from position \<open>j\<close> on (the null pointer when \<open>j\<close> is the
  length of the chain), and \<^verbatim>\<open>previous_entry\<close> the entry before it, or the head
  itself when the loop has not run, which is the only case where the two pointers
  are equal.
\<close>

fun delete_search :: "chain \<Rightarrow> string \<Rightarrow> nat" where
  "delete_search [] k = 0"
| "delete_search (cur # rest) k = (if key cur \<noteq> k then Suc (delete_search rest k) else 0)"

text \<open>
  \<^verbatim>\<open>int val = current_entry->val; ... return val;\<close>: the value goes through an
  \<^verbatim>\<open>int\<close> and back to \<^verbatim>\<open>unsigned int\<close>.
\<close>

definition through_int :: "u32 \<Rightarrow> u32" where
  "through_int v = word_of_int (sint v)"

text \<open>
  \<^verbatim>\<open>hashtable_delete\<close>. The result is the table after the call and the returned
  value. \<^verbatim>\<open>erease\<close> clears and frees the storage of the removed entry, which is no
  longer part of the table.
\<close>

definition hashtable_delete :: "hashtable option \<Rightarrow> string option \<Rightarrow> fault + (hashtable option \<times> u32)" where
  "hashtable_delete htable ko =
     (case htable of
        None \<Rightarrow> Inr (None, 0)
      | Some t \<Rightarrow>
     (case ko of
        None \<Rightarrow> Inr (Some t, 0)
      | Some k \<Rightarrow>
     (case hashtable_gethash (size_ht t) k of
        Inl f \<Rightarrow> Inl f
      | Inr hash \<Rightarrow>
          if length (table t) \<le> unat hash then Inl OutOfBounds
          else if table t ! unat hash = [] then Inr (Some t, 0)
          else
            (let c = table t ! unat hash; j = delete_search c k in
             case drop j c of
               [] \<Rightarrow> Inr (Some t, 0)
             | cur # nxt \<Rightarrow>
                 if j = 0 then
                   (if nxt = [] then
                      Inr (Some (t\<lparr>table := (table t)[unat hash := []],
                                   different_entries := different_entries t - 1\<rparr>),
                           through_int (val cur))
                    else
                      Inr (Some (t\<lparr>table := (table t)[unat hash := nxt],
                                   collisions := collisions t - 1\<rparr>),
                           through_int (val cur)))
                 else
                   Inr (Some (t\<lparr>table := (table t)[unat hash := take j c @ nxt],
                                collisions := collisions t - 1\<rparr>),
                        through_int (val cur))))))"

section \<open>Lookup\<close>

text \<open>
  The loop of \<^verbatim>\<open>hashtable_get\<close>: the first entry of the chain whose key compares
  equal, or the null pointer at the end of the chain.
\<close>

fun get_search :: "chain \<Rightarrow> string \<Rightarrow> hashtable_entry option" where
  "get_search [] k = None"
| "get_search (cur # rest) k = (if key cur = k then Some cur else get_search rest k)"

definition hashtable_get :: "hashtable option \<Rightarrow> string option \<Rightarrow> fault + hashtable_entry option" where
  "hashtable_get htable ko =
     (case htable of
        None \<Rightarrow> Inr None
      | Some t \<Rightarrow>
     (case ko of
        None \<Rightarrow> Inr None
      | Some k \<Rightarrow>
     (case hashtable_gethash (size_ht t) k of
        Inl f \<Rightarrow> Inl f
      | Inr hash \<Rightarrow>
          if length (table t) \<le> unat hash then Inl OutOfBounds
          else Inr (get_search (table t ! unat hash) k))))"

section \<open>Sequences of calls\<close>

text \<open>
  A client such as \<^verbatim>\<open>test_12_strings\<close> holds one table pointer and calls
  \<^verbatim>\<open>hashtable_insert\<close> and \<^verbatim>\<open>hashtable_delete\<close> on it with string
  literals, ignoring the results.
\<close>

datatype call = Insert string u32 | Delete string

fun do_call :: "hashtable option \<Rightarrow> call \<Rightarrow> fault + hashtable option" where
  "do_call htable (Insert k v) = map_sum id fst (hashtable_insert htable (Some k) v)"
| "do_call htable (Delete k) = map_sum id fst (hashtable_delete htable (Some k))"

fun do_calls :: "hashtable option \<Rightarrow> call list \<Rightarrow> fault + hashtable option" where
  "do_calls htable [] = Inr htable"
| "do_calls htable (c # cs) =
     (case do_call htable c of Inl f \<Rightarrow> Inl f | Inr htable' \<Rightarrow> do_calls htable' cs)"

section \<open>Well-formed tables and what the counters count\<close>

text \<open>
  The shape every table built by \<^verbatim>\<open>hashtable_newhashtable\<close> has and every
  operation keeps: at least two buckets, and as many as \<^verbatim>\<open>size\<close> says.
\<close>

definition valid :: "hashtable \<Rightarrow> bool" where
  "valid t = (2 \<le> size_ht t \<and> length (table t) = unat (size_ht t))"

definition total_entries :: "hashtable \<Rightarrow> nat" where
  "total_entries t = sum_list (map length (table t))"

definition nonempty_buckets :: "hashtable \<Rightarrow> nat" where
  "nonempty_buckets t = length (filter (\<lambda>c. c \<noteq> []) (table t))"

text \<open>
  What the two counters hold, in their own 32-bit arithmetic:
  \<^verbatim>\<open>different_entries\<close> is the number of non-empty buckets and
  \<^verbatim>\<open>collisions\<close> the number of entries beyond the first of their chain.
\<close>

definition counters_consistent :: "hashtable \<Rightarrow> bool" where
  "counters_consistent t =
     (different_entries t = of_nat (nonempty_buckets t) \<and>
      collisions t = of_nat (total_entries t - nonempty_buckets t))"

text \<open>Every entry sits in the bucket its key hashes to.\<close>

definition well_placed :: "hashtable \<Rightarrow> bool" where
  "well_placed t =
     (\<forall>i < length (table t). \<forall>e \<in> set (table t ! i).
        hashtable_gethash (size_ht t) (key e) = Inr (of_nat i))"

text \<open>The keys stored in a table.\<close>

definition keys_of :: "hashtable \<Rightarrow> string set" where
  "keys_of t = key ` set (concat (table t))"

text \<open>
  A call whose key fits the 65 bytes \<^verbatim>\<open>hashtable_newentry\<close> allocates; only insert
  copies its key.
\<close>

fun fits_buffer :: "call \<Rightarrow> bool" where
  "fits_buffer (Insert k v) = (length k \<le> 64)"
| "fits_buffer (Delete k) = True"

section \<open>Example tables\<close>

text \<open>
  A table of two buckets holding the keys \<open>a\<close> and \<open>c\<close>, which both hash to
  bucket 1.
\<close>

definition two_bucket_table :: hashtable where
  "two_bucket_table = \<lparr>size_ht = 2, different_entries = 1, collisions = 1,
      table = [[], [\<lparr>key = ''a'', val = 1\<rparr>, \<lparr>key = ''c'', val = 2\<rparr>]]\<rparr>"

text \<open>The twelve keys \<^verbatim>\<open>test_12_strings\<close> inserts, in its order.\<close>

definition test_keys :: "string list" where
  "test_keys = [''8ct4xaucod'', ''7i2pefipwc'', ''mmnoy7c6yq'', ''ouam4phm2c'', ''e2xztziqtj'',
     ''wrrw5arl6d'', ''7lc5pgl8kd'', ''93i5i8sx17'', ''6kkd8e0zq1'', ''yeqmy6bjmk'',
     ''hn1gybiuy6'', ''5wr2vyui8t'']"

text \<open>
  The inserts of \<^verbatim>\<open>test_12_strings\<close>, each with the value 0, and the two counters
  read from the table a sequence of calls ends with.
\<close>

definition test_pairs :: "(string \<times> u32) list" where
  "test_pairs = map (\<lambda>k. (k, 0)) test_keys"

definition test_calls :: "call list" where
  "test_calls = map (case_prod Insert) test_pairs"

definition counters_of_result :: "fault + hashtable option \<Rightarrow> (u32 \<times> u32) option" where
  "counters_of_result r =
     (case r of Inr (Some t) \<Rightarrow> Some (different_entries t, collisions t) | _ \<Rightarrow> None)"

section \<open>The hash is a bucket index\<close>

lemma gethash_loop_bound:
  "m \<noteq> 0 \<Longrightarrow> \<exists>r. gethash_loop m k h = Inr r \<and> (k \<noteq> [] \<or> h < m \<longrightarrow> r < m)"
proof (induction k arbitrary: h)
  case Nil
  then show ?case by simp
next
  case (Cons c k)
  have "(word_of_int (char_int c) + push_bit 5 h + h) mod m < m"
    using Cons.prems(1) by (simp add: word_mod_less_divisor word_neq_0_conv)
  then show ?case using Cons.IH[OF Cons.prems(1)] Cons.prems(1) by auto
qed

lemma gethash_total:
  assumes "m \<noteq> 0"
  obtains r where "hashtable_gethash m k = Inr r" and "r < m"
proof -
  have "(0::u32) < m" using assms by (simp add: word_neq_0_conv)
  with gethash_loop_bound[OF assms, of k 0] show ?thesis
    using that by (auto simp: hashtable_gethash_def)
qed

lemma valid_gethash:
  assumes "valid t"
  obtains hash where "hashtable_gethash (size_ht t) k = Inr hash" and "unat hash < length (table t)"
proof -
  have "size_ht t \<noteq> 0" using assms by (auto simp: valid_def)
  then obtain r where r: "hashtable_gethash (size_ht t) k = Inr r" "r < size_ht t"
    by (rule gethash_total)
  have "unat r < length (table t)" using r(2) assms by (simp add: valid_def word_less_nat_alt)
  with r(1) show ?thesis using that by blast
qed

section \<open>What the search loops find\<close>

lemma first_occurrence:
  assumes "k \<in> key ` set c"
  obtains pre e post where "c = pre @ e # post" and "key e = k" and "k \<notin> key ` set pre"
proof -
  from assms have "\<exists>x\<in>set c. key x = k" by auto
  from split_list_first_prop[OF this]
  obtain pre e post where "c = pre @ e # post" "key e = k" "\<forall>y\<in>set pre. key y \<noteq> k"
    by blast
  moreover from this(3) have "k \<notin> key ` set pre" by auto
  ultimately show ?thesis using that by blast
qed

declare insert_search.simps [simp del]

lemma insert_search_hit: "key cur = k \<Longrightarrow> insert_search cur rest k = (0, True)"
  by (subst insert_search.simps) simp

lemma insert_search_last: "key cur \<noteq> k \<Longrightarrow> insert_search cur [] k = (0, False)"
  by (subst insert_search.simps) simp

lemma insert_search_step:
  "key cur \<noteq> k \<Longrightarrow>
   insert_search cur (nxt # rest') k = (case insert_search nxt rest' k of (j, found) \<Rightarrow> (Suc j, found))"
  by (subst insert_search.simps) simp

lemma insert_search_found:
  "cur # rest = pre @ e # post \<Longrightarrow> key e = k \<Longrightarrow> k \<notin> key ` set pre
   \<Longrightarrow> insert_search cur rest k = (length pre, True)"
proof (induction pre arbitrary: cur rest)
  case Nil
  then show ?case by (simp add: insert_search_hit)
next
  case (Cons p pre)
  then obtain nxt rest' where r: "rest = nxt # rest'" "nxt # rest' = pre @ e # post" "cur = p"
    by (cases rest) (auto simp: Cons_eq_append_conv)
  have "key cur \<noteq> k" using Cons.prems(3) r(3) by auto
  moreover have "insert_search nxt rest' k = (length pre, True)"
    using Cons.IH[OF r(2) Cons.prems(2)] Cons.prems(3) by simp
  ultimately show ?case by (simp add: r(1) insert_search_step)
qed

lemma insert_search_absent:
  "k \<notin> key ` set (cur # rest) \<Longrightarrow> insert_search cur rest k = (length rest, False)"
proof (induction rest arbitrary: cur)
  case Nil
  then show ?case by (simp add: insert_search_last)
next
  case (Cons nxt rest')
  then have "insert_search nxt rest' k = (length rest', False)" by simp
  moreover have "key cur \<noteq> k" using Cons.prems by auto
  ultimately show ?case by (simp add: insert_search_step)
qed

lemma delete_search_found:
  "key e = k \<Longrightarrow> k \<notin> key ` set pre \<Longrightarrow> delete_search (pre @ e # post) k = length pre"
  by (induction pre) auto

lemma delete_search_absent:
  "k \<notin> key ` set c \<Longrightarrow> delete_search c k = length c"
  by (induction c) auto

lemma get_search_found:
  "key e = k \<Longrightarrow> k \<notin> key ` set pre \<Longrightarrow> get_search (pre @ e # post) k = Some e"
  by (induction pre) auto

lemma get_search_absent:
  "k \<notin> key ` set c \<Longrightarrow> get_search c k = None"
  by (induction c) auto

lemma through_int_id: "through_int v = v"
  unfolding through_int_def by (simp only: of_int_sint scast_id)

section \<open>The cases of the operations on a bucket\<close>

lemma insert_empty:
  assumes "hashtable_gethash (size_ht t) k = Inr hash" and "unat hash < length (table t)"
    and "table t ! unat hash = []" and "length k \<le> 64"
  shows "hashtable_insert (Some t) (Some k) v =
    Inr (Some (t\<lparr>table := (table t)[unat hash := [\<lparr>key = k, val = v\<rparr>]],
                 different_entries := different_entries t + 1\<rparr>),
         Some \<lparr>key = k, val = v\<rparr>)"
  using assms by (simp add: hashtable_insert_def hashtable_newentry_def chain_of_def)

lemma insert_found:
  assumes "hashtable_gethash (size_ht t) k = Inr hash" and "unat hash < length (table t)"
    and "table t ! unat hash = pre @ e # post" and "key e = k" and "k \<notin> key ` set pre"
  shows "hashtable_insert (Some t) (Some k) v =
    Inr (Some (t\<lparr>table := (table t)[unat hash := pre @ e\<lparr>val := v\<rparr> # post]\<rparr>),
         Some (e\<lparr>val := v\<rparr>))"
proof -
  obtain cur rest where c: "pre @ e # post = cur # rest" by (cases pre) auto
  have s: "insert_search cur rest k = (length pre, True)"
    using insert_search_found[OF c[symmetric] assms(4,5)] .
  have n: "(cur # rest) ! length pre = e" unfolding c[symmetric] by simp
  have u: "(cur # rest)[length pre := e\<lparr>val := v\<rparr>] = pre @ e\<lparr>val := v\<rparr> # post"
    unfolding c[symmetric] by simp
  show ?thesis
    using assms(1,2)
    by (simp add: hashtable_insert_def assms(3) c s n u del: list_update.simps nth_Cons_Suc nth_Cons_0)
qed

lemma insert_append:
  assumes "hashtable_gethash (size_ht t) k = Inr hash" and "unat hash < length (table t)"
    and "table t ! unat hash \<noteq> []" and "k \<notin> key ` set (table t ! unat hash)"
    and "length k \<le> 64"
  shows "hashtable_insert (Some t) (Some k) v =
    Inr (Some (t\<lparr>table := (table t)[unat hash := table t ! unat hash @ [\<lparr>key = k, val = v\<rparr>]],
                 collisions := collisions t + 1\<rparr>),
         Some \<lparr>key = k, val = v\<rparr>)"
proof -
  obtain cur rest where c: "table t ! unat hash = cur # rest"
    using assms(3) by (cases "table t ! unat hash") auto
  have s: "insert_search cur rest k = (length rest, False)"
    using insert_search_absent[of k cur rest] assms(4) by (simp add: c)
  show ?thesis
    using assms(1,2,5) by (simp add: hashtable_insert_def c s hashtable_newentry_def chain_of_def)
qed

lemma delete_absent:
  assumes "hashtable_gethash (size_ht t) k = Inr hash" and "unat hash < length (table t)"
    and "k \<notin> key ` set (table t ! unat hash)"
  shows "hashtable_delete (Some t) (Some k) = Inr (Some t, 0)"
  using assms by (simp add: hashtable_delete_def Let_def delete_search_absent)

lemma delete_sole:
  assumes "hashtable_gethash (size_ht t) k = Inr hash" and "unat hash < length (table t)"
    and "table t ! unat hash = [e]" and "key e = k"
  shows "hashtable_delete (Some t) (Some k) =
    Inr (Some (t\<lparr>table := (table t)[unat hash := []],
                 different_entries := different_entries t - 1\<rparr>), val e)"
  using assms by (simp add: hashtable_delete_def Let_def through_int_id)

lemma delete_head:
  assumes "hashtable_gethash (size_ht t) k = Inr hash" and "unat hash < length (table t)"
    and "table t ! unat hash = e # post" and "key e = k" and "post \<noteq> []"
  shows "hashtable_delete (Some t) (Some k) =
    Inr (Some (t\<lparr>table := (table t)[unat hash := post],
                 collisions := collisions t - 1\<rparr>), val e)"
  using assms by (simp add: hashtable_delete_def Let_def through_int_id)

lemma delete_inner:
  assumes "hashtable_gethash (size_ht t) k = Inr hash" and "unat hash < length (table t)"
    and "table t ! unat hash = pre @ e # post" and "key e = k" and "k \<notin> key ` set pre"
    and "pre \<noteq> []"
  shows "hashtable_delete (Some t) (Some k) =
    Inr (Some (t\<lparr>table := (table t)[unat hash := pre @ post],
                 collisions := collisions t - 1\<rparr>), val e)"
proof -
  have j: "delete_search (pre @ e # post) k = length pre"
    using assms(4,5) by (rule delete_search_found)
  show ?thesis
    using assms(1,2,6) by (simp add: hashtable_delete_def Let_def assms(3) j through_int_id)
qed

lemma get_found:
  assumes "hashtable_gethash (size_ht t) k = Inr hash" and "unat hash < length (table t)"
    and "table t ! unat hash = pre @ e # post" and "key e = k" and "k \<notin> key ` set pre"
  shows "hashtable_get (Some t) (Some k) = Inr (Some e)"
  using assms by (simp add: hashtable_get_def get_search_found)

lemma get_absent:
  assumes "hashtable_gethash (size_ht t) k = Inr hash" and "unat hash < length (table t)"
    and "k \<notin> key ` set (table t ! unat hash)"
  shows "hashtable_get (Some t) (Some k) = Inr None"
  using assms by (simp add: hashtable_get_def get_search_absent)

lemma gethash_in_range:
  "m \<noteq> 0 \<Longrightarrow> \<exists>r. hashtable_gethash m k = Inr r \<and> r < m"
  by (erule gethash_total) blast

lemma gethash_empty: "hashtable_gethash m [] = Inr 0"
  by (simp add: hashtable_gethash_def)

lemma small_hashes:
  "hashtable_gethash 2 ''a'' = Inr 1" "hashtable_gethash 2 ''b'' = Inr 0"
  "hashtable_gethash 2 ''c'' = Inr 1" "hashtable_gethash 2 ''e'' = Inr 1"
  by (simp_all add: hashtable_gethash_def char_int_def)

lemma valid_two_bucket_table: "valid two_bucket_table"
  by (simp add: valid_def two_bucket_table_def)

section \<open>The hash function against its specification\<close>

text \<open>
  As long as \<open>c + h * 33\<close> cannot reach \<open>2 ^ 32\<close> (up to 130150521 buckets, keys of
  characters below 128) the code computes the fold of the specification.
\<close>

lemma hash_step_small:
  fixes h m :: u32
  assumes "h < m" and "33 * (unat m - 1) + 127 < 2 ^ 32" and "(of_char c :: nat) < 128"
  shows "unat ((word_of_int (char_int c) + push_bit 5 h + h) mod m) =
         (of_char c + unat h * 33) mod unat m"
proof -
  have hm: "unat h \<le> unat m - 1" using assms(1) by (simp add: word_less_nat_alt)
  have b: "of_char c + unat h * 33 < 2 ^ LENGTH(32)"
    using hm assms(2,3) by simp
  have "word_of_int (char_int c) + push_bit 5 h + h =
        (word_of_nat (of_char c) :: u32) + word_of_nat (unat h) * 32 + word_of_nat (unat h)"
    using assms(3) by (simp add: char_int_def push_bit_eq_mult)
  also have "\<dots> = (word_of_nat (of_char c + unat h * 33) :: u32)"
    by (simp only: of_nat_add of_nat_mult of_nat_numeral) (simp add: algebra_simps)
  finally have "unat (word_of_int (char_int c) + push_bit 5 h + h) = of_char c + unat h * 33"
    using b by (simp only: unat_of_nat mod_less)
  then show ?thesis by (simp only: unat_mod)
qed

lemma gethash_loop_small:
  fixes h m :: u32
  assumes "m \<noteq> 0" and "33 * (unat m - 1) + 127 < 2 ^ 32" and "\<forall>c \<in> set k. (of_char c :: nat) < 128"
    and "h < m"
  shows "\<exists>r. gethash_loop m k h = Inr r \<and>
           unat r = foldl (\<lambda>h c. (of_char c + h * 33) mod unat m) (unat h) k"
  using assms(3,4)
proof (induction k arbitrary: h)
  case Nil
  then show ?case by simp
next
  case (Cons c k)
  let ?h' = "(word_of_int (char_int c) + push_bit 5 h + h) mod m"
  have s: "unat ?h' = (of_char c + unat h * 33) mod unat m"
    using Cons.prems(2) assms(2) Cons.prems(1) by (intro hash_step_small) simp_all
  have "?h' < m" using assms(1) by (simp add: word_mod_less_divisor word_neq_0_conv)
  from Cons.IH[OF _ this] Cons.prems(1)
  obtain r where "gethash_loop m k ?h' = Inr r"
    "unat r = foldl (\<lambda>h c. (of_char c + h * 33) mod unat m) (unat ?h') k" by auto
  then show ?case using assms(1) by (simp add: s)
qed

lemma gethash_is_horner_when_small:
  assumes "m \<noteq> 0" and "33 * (unat m - 1) + 127 < 2 ^ 32" and "\<forall>c \<in> set k. (of_char c :: nat) < 128"
  shows "\<exists>r. hashtable_gethash m k = Inr r \<and> unat r = horner_spec (unat m) k"
proof -
  have "(0::u32) < m" using assms(1) by (simp add: word_neq_0_conv)
  from gethash_loop_small[OF assms this] show ?thesis
    by (simp add: hashtable_gethash_def horner_spec_def)
qed

text \<open>
  Claim C3: for every bucket count \<open>m > 0\<close> and every key, the hash is the fold with
  \<open>h = (c + h * 33) mod m\<close> after every character, it lies in \<open>[0, m)\<close>, and the
  empty string hashes to 0. The range and the empty string are \<open>gethash_in_range\<close>
  and \<open>gethash_empty\<close>, and \<open>gethash_is_horner_when_small\<close> is the fold for small
  tables. For larger tables the fold is not what the code computes: once
  \<open>c + h * 33\<close> reaches \<open>2 ^ 32\<close> the sum wraps in \<^verbatim>\<open>unsigned int\<close> before the
  remainder is taken, although the comment above \<^verbatim>\<open>hashtable_gethash\<close> says that the
  remainder is there to prevent the value from overflowing. With 200000000 buckets and
  the key \<open>zzzzzz\<close> the code returns 28754332 where the fold gives 123721628.
\<close>

theorem gethash_wraps_before_modulo:
  "hashtable_gethash 200000000 ''zzzzzz'' = Inr 28754332 \<and>
   horner_spec 200000000 ''zzzzzz'' = 123721628"
  by (simp add: hashtable_gethash_def char_int_def horner_spec_def)

section \<open>Creating a table, null arguments\<close>

text \<open>
  Claim C7: \<^verbatim>\<open>hashtable_newhashtable\<close> fails (returns the null pointer) exactly when
  \<open>size < 2\<close>, so size 1 fails and size 2 succeeds; a table it returns has \<open>size\<close>
  buckets, every bucket empty, and both counters zero.
\<close>

theorem newhashtable_fails_iff_size_below_2:
  "(hashtable_newhashtable sz = None \<longleftrightarrow> sz < 2) \<and>
   hashtable_newhashtable 1 = None \<and>
   hashtable_newhashtable 2 \<noteq> None \<and>
   (\<forall>t. hashtable_newhashtable sz = Some t \<longrightarrow>
      size_ht t = sz \<and> length (table t) = unat sz \<and> (\<forall>c \<in> set (table t). c = []) \<and>
      different_entries t = 0 \<and> collisions t = 0)"
  by (auto simp: hashtable_newhashtable_def)

theorem newhashtable_fails_iff_size_below_2_witness:
  "hashtable_newhashtable 0 = None \<and>
   (\<exists>t. hashtable_newhashtable 16 = Some t \<and> size_ht t = 16 \<and> length (table t) = 16 \<and>
      table t = replicate 16 [] \<and> different_entries t = 0 \<and> collisions t = 0)"
  using newhashtable_fails_iff_size_below_2[of 0] newhashtable_fails_iff_size_below_2[of 16]
  by (simp add: hashtable_newhashtable_def)

text \<open>
  Claim C10: with a null table pointer every operation returns at once, whatever the
  key: insert and lookup return the null pointer, delete returns 0, and there is no
  table to change.
\<close>

theorem null_table_is_rejected:
  "hashtable_insert None ko v = Inr (None, None) \<and>
   hashtable_get None ko = Inr None \<and>
   hashtable_delete None ko = Inr (None, 0)"
  by (simp add: hashtable_insert_def hashtable_get_def hashtable_delete_def)

text \<open>
  Claim C8: with a null key, insert and lookup return the null pointer and delete
  returns 0, and the table (buckets, chains, both counters) is as before. Lookup never
  writes to the table, so it has no table among its results.
\<close>

theorem null_key_is_rejected:
  "hashtable_insert (Some t) None v = Inr (Some t, None) \<and>
   hashtable_delete (Some t) None = Inr (Some t, 0) \<and>
   hashtable_get (Some t) None = Inr None"
  by (simp add: hashtable_insert_def hashtable_get_def hashtable_delete_def)

section \<open>Insert\<close>

text \<open>
  Claim C4: on a well-formed table and a key of at most 64 characters, insert does one
  of three things to the bucket the key hashes to. Empty bucket: the new entry is the
  only member and \<^verbatim>\<open>different_entries\<close> goes up by one. The chain has an entry with
  this key: the first such entry gets the new value, its key, its position and both
  counters stay. Otherwise: the new entry is appended behind the last entry and
  \<^verbatim>\<open>collisions\<close> goes up by one.
\<close>

theorem insert_three_cases:
  assumes "valid t" and "length k \<le> 64"
  shows "\<exists>hash. hashtable_gethash (size_ht t) k = Inr hash \<and> unat hash < length (table t) \<and>
     (table t ! unat hash = [] \<longrightarrow>
        hashtable_insert (Some t) (Some k) v =
          Inr (Some (t\<lparr>table := (table t)[unat hash := [\<lparr>key = k, val = v\<rparr>]],
                       different_entries := different_entries t + 1\<rparr>),
               Some \<lparr>key = k, val = v\<rparr>)) \<and>
     (k \<in> key ` set (table t ! unat hash) \<longrightarrow>
        (\<exists>pre e post. table t ! unat hash = pre @ e # post \<and> key e = k \<and> k \<notin> key ` set pre \<and>
           hashtable_insert (Some t) (Some k) v =
             Inr (Some (t\<lparr>table := (table t)[unat hash := pre @ e\<lparr>val := v\<rparr> # post]\<rparr>),
                  Some (e\<lparr>val := v\<rparr>)))) \<and>
     (table t ! unat hash \<noteq> [] \<and> k \<notin> key ` set (table t ! unat hash) \<longrightarrow>
        hashtable_insert (Some t) (Some k) v =
          Inr (Some (t\<lparr>table := (table t)[unat hash := table t ! unat hash @ [\<lparr>key = k, val = v\<rparr>]],
                       collisions := collisions t + 1\<rparr>),
               Some \<lparr>key = k, val = v\<rparr>))"
proof -
  obtain hash where h: "hashtable_gethash (size_ht t) k = Inr hash" "unat hash < length (table t)"
    using assms(1) by (rule valid_gethash)
  have "table t ! unat hash = [] \<longrightarrow>
        hashtable_insert (Some t) (Some k) v =
          Inr (Some (t\<lparr>table := (table t)[unat hash := [\<lparr>key = k, val = v\<rparr>]],
                       different_entries := different_entries t + 1\<rparr>),
               Some \<lparr>key = k, val = v\<rparr>)"
    using insert_empty[OF h _ assms(2)] by blast
  moreover have "k \<in> key ` set (table t ! unat hash) \<longrightarrow>
        (\<exists>pre e post. table t ! unat hash = pre @ e # post \<and> key e = k \<and> k \<notin> key ` set pre \<and>
           hashtable_insert (Some t) (Some k) v =
             Inr (Some (t\<lparr>table := (table t)[unat hash := pre @ e\<lparr>val := v\<rparr> # post]\<rparr>),
                  Some (e\<lparr>val := v\<rparr>)))"
  proof
    assume "k \<in> key ` set (table t ! unat hash)"
    then obtain pre e post where d: "table t ! unat hash = pre @ e # post" "key e = k"
      "k \<notin> key ` set pre" by (rule first_occurrence)
    from insert_found[OF h d] d show "\<exists>pre e post. table t ! unat hash = pre @ e # post \<and>
           key e = k \<and> k \<notin> key ` set pre \<and>
           hashtable_insert (Some t) (Some k) v =
             Inr (Some (t\<lparr>table := (table t)[unat hash := pre @ e\<lparr>val := v\<rparr> # post]\<rparr>),
                  Some (e\<lparr>val := v\<rparr>))" by blast
  qed
  moreover have "table t ! unat hash \<noteq> [] \<and> k \<notin> key ` set (table t ! unat hash) \<longrightarrow>
        hashtable_insert (Some t) (Some k) v =
          Inr (Some (t\<lparr>table := (table t)[unat hash := table t ! unat hash @ [\<lparr>key = k, val = v\<rparr>]],
                       collisions := collisions t + 1\<rparr>),
               Some \<lparr>key = k, val = v\<rparr>)"
    using insert_append[OF h _ _ assms(2)] by blast
  ultimately show ?thesis using h by blast
qed

theorem insert_three_cases_witness:
  "hashtable_insert (Some two_bucket_table) (Some ''b'') 7 =
     Inr (Some \<lparr>size_ht = 2, different_entries = 2, collisions = 1,
            table = [[\<lparr>key = ''b'', val = 7\<rparr>], [\<lparr>key = ''a'', val = 1\<rparr>, \<lparr>key = ''c'', val = 2\<rparr>]]\<rparr>,
          Some \<lparr>key = ''b'', val = 7\<rparr>) \<and>
   hashtable_insert (Some two_bucket_table) (Some ''c'') 9 =
     Inr (Some \<lparr>size_ht = 2, different_entries = 1, collisions = 1,
            table = [[], [\<lparr>key = ''a'', val = 1\<rparr>, \<lparr>key = ''c'', val = 9\<rparr>]]\<rparr>,
          Some \<lparr>key = ''c'', val = 9\<rparr>) \<and>
   hashtable_insert (Some two_bucket_table) (Some ''e'') 5 =
     Inr (Some \<lparr>size_ht = 2, different_entries = 1, collisions = 2,
            table = [[], [\<lparr>key = ''a'', val = 1\<rparr>, \<lparr>key = ''c'', val = 2\<rparr>, \<lparr>key = ''e'', val = 5\<rparr>]]\<rparr>,
          Some \<lparr>key = ''e'', val = 5\<rparr>)"
  using insert_three_cases[OF valid_two_bucket_table, of "''b''" 7]
    insert_three_cases[OF valid_two_bucket_table, of "''c''" 9]
    insert_three_cases[OF valid_two_bucket_table, of "''e''" 5]
  by (auto simp: two_bucket_table_def small_hashes Cons_eq_append_conv append_eq_Cons_conv)

section \<open>Case rules for insert and delete\<close>

lemma insert_outcome:
  assumes "valid t" and "length k \<le> 64"
  obtains (empty) hash where
      "hashtable_gethash (size_ht t) k = Inr hash" "unat hash < length (table t)"
      "table t ! unat hash = []"
      "hashtable_insert (Some t) (Some k) v =
         Inr (Some (t\<lparr>table := (table t)[unat hash := [\<lparr>key = k, val = v\<rparr>]],
                      different_entries := different_entries t + 1\<rparr>),
              Some \<lparr>key = k, val = v\<rparr>)"
  | (found) hash pre e post where
      "hashtable_gethash (size_ht t) k = Inr hash" "unat hash < length (table t)"
      "table t ! unat hash = pre @ e # post" "key e = k" "k \<notin> key ` set pre"
      "hashtable_insert (Some t) (Some k) v =
         Inr (Some (t\<lparr>table := (table t)[unat hash := pre @ e\<lparr>val := v\<rparr> # post]\<rparr>),
              Some (e\<lparr>val := v\<rparr>))"
  | (append) hash where
      "hashtable_gethash (size_ht t) k = Inr hash" "unat hash < length (table t)"
      "table t ! unat hash \<noteq> []" "k \<notin> key ` set (table t ! unat hash)"
      "hashtable_insert (Some t) (Some k) v =
         Inr (Some (t\<lparr>table := (table t)[unat hash := table t ! unat hash @ [\<lparr>key = k, val = v\<rparr>]],
                      collisions := collisions t + 1\<rparr>),
              Some \<lparr>key = k, val = v\<rparr>)"
proof -
  obtain hash where h: "hashtable_gethash (size_ht t) k = Inr hash" "unat hash < length (table t)"
    using assms(1) by (rule valid_gethash)
  show ?thesis
  proof (cases "k \<in> key ` set (table t ! unat hash)")
    case True
    then obtain pre e post where d: "table t ! unat hash = pre @ e # post" "key e = k"
      "k \<notin> key ` set pre" by (rule first_occurrence)
    show ?thesis using found[OF h d insert_found[OF h d]] .
  next
    case False
    show ?thesis
    proof (cases "table t ! unat hash = []")
      case True
      show ?thesis using empty[OF h True insert_empty[OF h True assms(2)]] .
    next
      case ne: False
      show ?thesis using append[OF h ne False insert_append[OF h ne False assms(2)]] .
    qed
  qed
qed

lemma delete_outcome:
  assumes "valid t"
  obtains (absent) hash where
      "hashtable_gethash (size_ht t) k = Inr hash" "unat hash < length (table t)"
      "k \<notin> key ` set (table t ! unat hash)"
      "hashtable_delete (Some t) (Some k) = Inr (Some t, 0)"
  | (sole) hash e where
      "hashtable_gethash (size_ht t) k = Inr hash" "unat hash < length (table t)"
      "table t ! unat hash = [e]" "key e = k"
      "hashtable_delete (Some t) (Some k) =
         Inr (Some (t\<lparr>table := (table t)[unat hash := []],
                      different_entries := different_entries t - 1\<rparr>), val e)"
  | (shorter) hash pre e post where
      "hashtable_gethash (size_ht t) k = Inr hash" "unat hash < length (table t)"
      "table t ! unat hash = pre @ e # post" "key e = k" "k \<notin> key ` set pre"
      "pre @ post \<noteq> []"
      "hashtable_delete (Some t) (Some k) =
         Inr (Some (t\<lparr>table := (table t)[unat hash := pre @ post],
                      collisions := collisions t - 1\<rparr>), val e)"
proof -
  obtain hash where h: "hashtable_gethash (size_ht t) k = Inr hash" "unat hash < length (table t)"
    using assms(1) by (rule valid_gethash)
  show ?thesis
  proof (cases "k \<in> key ` set (table t ! unat hash)")
    case False
    show ?thesis using absent[OF h False delete_absent[OF h False]] .
  next
    case True
    then obtain pre e post where d: "table t ! unat hash = pre @ e # post" "key e = k"
      "k \<notin> key ` set pre" by (rule first_occurrence)
    show ?thesis
    proof (cases "pre = []")
      case p: True
      show ?thesis
      proof (cases "post = []")
        case True
        with p d(1) have c: "table t ! unat hash = [e]" by simp
        show ?thesis using sole[OF h c d(2) delete_sole[OF h c d(2)]] .
      next
        case False
        with p d(1) have c: "table t ! unat hash = e # post" by simp
        from False p have n: "pre @ post \<noteq> []" by simp
        have "hashtable_delete (Some t) (Some k) =
         Inr (Some (t\<lparr>table := (table t)[unat hash := pre @ post],
                      collisions := collisions t - 1\<rparr>), val e)"
          using delete_head[OF h c d(2) False] p by simp
        then show ?thesis using shorter[OF h d n] by blast
      qed
    next
      case False
      then have n: "pre @ post \<noteq> []" by simp
      show ?thesis using shorter[OF h d n delete_inner[OF h d False]] .
    qed
  qed
qed

section \<open>Delete\<close>

text \<open>
  Claim C5: on a well-formed table, delete of a key that is not in its bucket returns 0
  and leaves the table as it is. Otherwise it returns the value of the first entry with
  this key and removes exactly that entry: the only member of the chain, the bucket
  becomes empty and \<^verbatim>\<open>different_entries\<close> goes down by one; the head of a longer
  chain, the next entry becomes the head and \<^verbatim>\<open>collisions\<close> goes down by one; an
  entry further down, its predecessor is linked to its successor and
  \<^verbatim>\<open>collisions\<close> goes down by one.
\<close>

theorem delete_cases:
  assumes "valid t"
  shows "\<exists>hash. hashtable_gethash (size_ht t) k = Inr hash \<and> unat hash < length (table t) \<and>
     (k \<notin> key ` set (table t ! unat hash) \<longrightarrow>
        hashtable_delete (Some t) (Some k) = Inr (Some t, 0)) \<and>
     (k \<in> key ` set (table t ! unat hash) \<longrightarrow>
        (\<exists>pre e post. table t ! unat hash = pre @ e # post \<and> key e = k \<and> k \<notin> key ` set pre \<and>
           hashtable_delete (Some t) (Some k) =
             Inr (Some (if pre = [] \<and> post = []
                        then t\<lparr>table := (table t)[unat hash := []],
                               different_entries := different_entries t - 1\<rparr>
                        else if pre = []
                        then t\<lparr>table := (table t)[unat hash := post],
                               collisions := collisions t - 1\<rparr>
                        else t\<lparr>table := (table t)[unat hash := pre @ post],
                               collisions := collisions t - 1\<rparr>),
                  val e)))"
proof -
  obtain hash where h: "hashtable_gethash (size_ht t) k = Inr hash" "unat hash < length (table t)"
    using assms(1) by (rule valid_gethash)
  have "k \<notin> key ` set (table t ! unat hash) \<longrightarrow>
        hashtable_delete (Some t) (Some k) = Inr (Some t, 0)"
    using delete_absent[OF h] by blast
  moreover have "k \<in> key ` set (table t ! unat hash) \<longrightarrow>
        (\<exists>pre e post. table t ! unat hash = pre @ e # post \<and> key e = k \<and> k \<notin> key ` set pre \<and>
           hashtable_delete (Some t) (Some k) =
             Inr (Some (if pre = [] \<and> post = []
                        then t\<lparr>table := (table t)[unat hash := []],
                               different_entries := different_entries t - 1\<rparr>
                        else if pre = []
                        then t\<lparr>table := (table t)[unat hash := post],
                               collisions := collisions t - 1\<rparr>
                        else t\<lparr>table := (table t)[unat hash := pre @ post],
                               collisions := collisions t - 1\<rparr>),
                  val e))"
  proof
    assume "k \<in> key ` set (table t ! unat hash)"
    then obtain pre e post where d: "table t ! unat hash = pre @ e # post" "key e = k"
      "k \<notin> key ` set pre" by (rule first_occurrence)
    have "hashtable_delete (Some t) (Some k) =
             Inr (Some (if pre = [] \<and> post = []
                        then t\<lparr>table := (table t)[unat hash := []],
                               different_entries := different_entries t - 1\<rparr>
                        else if pre = []
                        then t\<lparr>table := (table t)[unat hash := post],
                               collisions := collisions t - 1\<rparr>
                        else t\<lparr>table := (table t)[unat hash := pre @ post],
                               collisions := collisions t - 1\<rparr>),
                  val e)"
    proof (cases "pre = []")
      case True
      show ?thesis
      proof (cases "post = []")
        case True
        with \<open>pre = []\<close> delete_sole[OF h _ d(2), of ] d(1) show ?thesis by simp
      next
        case False
        with \<open>pre = []\<close> delete_head[OF h _ d(2), of post] d(1) show ?thesis by simp
      qed
    next
      case False
      with delete_inner[OF h d] show ?thesis by simp
    qed
    with d show "\<exists>pre e post. table t ! unat hash = pre @ e # post \<and> key e = k \<and>
           k \<notin> key ` set pre \<and>
           hashtable_delete (Some t) (Some k) =
             Inr (Some (if pre = [] \<and> post = []
                        then t\<lparr>table := (table t)[unat hash := []],
                               different_entries := different_entries t - 1\<rparr>
                        else if pre = []
                        then t\<lparr>table := (table t)[unat hash := post],
                               collisions := collisions t - 1\<rparr>
                        else t\<lparr>table := (table t)[unat hash := pre @ post],
                               collisions := collisions t - 1\<rparr>),
                  val e)" by blast
  qed
  ultimately show ?thesis using h by blast
qed

theorem delete_cases_witness:
  "hashtable_delete (Some two_bucket_table) (Some ''e'') = Inr (Some two_bucket_table, 0) \<and>
   hashtable_delete (Some two_bucket_table) (Some ''a'') =
     Inr (Some \<lparr>size_ht = 2, different_entries = 1, collisions = 0,
            table = [[], [\<lparr>key = ''c'', val = 2\<rparr>]]\<rparr>, 1) \<and>
   hashtable_delete (Some two_bucket_table) (Some ''c'') =
     Inr (Some \<lparr>size_ht = 2, different_entries = 1, collisions = 0,
            table = [[], [\<lparr>key = ''a'', val = 1\<rparr>]]\<rparr>, 2) \<and>
   hashtable_delete (Some \<lparr>size_ht = 2, different_entries = 1, collisions = 0,
            table = [[], [\<lparr>key = ''a'', val = 1\<rparr>]]\<rparr>) (Some ''a'') =
     Inr (Some \<lparr>size_ht = 2, different_entries = 0, collisions = 0, table = [[], []]\<rparr>, 1)"
  using delete_cases[OF valid_two_bucket_table, of "''e''"]
    delete_cases[OF valid_two_bucket_table, of "''a''"]
    delete_cases[OF valid_two_bucket_table, of "''c''"]
    delete_cases[of "\<lparr>size_ht = 2, different_entries = 1, collisions = 0,
            table = [[], [\<lparr>key = ''a'', val = 1\<rparr>]]\<rparr>" "''a''"]
  by (auto simp: two_bucket_table_def small_hashes valid_def Cons_eq_append_conv append_eq_Cons_conv)

section \<open>Counting entries and non-empty buckets\<close>

lemma table_split:
  assumes "i < length xs"
  shows "\<exists>A B. xs = A @ xs ! i # B \<and> (\<forall>c'. xs[i := c'] = A @ c' # B)"
proof -
  have "xs = take i xs @ xs ! i # drop (Suc i) xs" using assms by (rule id_take_nth_drop)
  moreover have "\<forall>c'. xs[i := c'] = take i xs @ c' # drop (Suc i) xs"
    using assms by (simp add: upd_conv_take_nth_drop)
  ultimately show ?thesis by blast
qed

lemma nonempty_le_total:
  "length (filter (\<lambda>c. c \<noteq> []) xs) \<le> sum_list (map length (xs :: 'a list list))"
proof (induction xs)
  case Nil
  then show ?case by simp
next
  case (Cons c xs)
  then show ?case by (cases c) auto
qed

lemma total_entries_update:
  assumes "i < length (table t)" and "table t' = (table t)[i := c']"
  shows "total_entries t' + length (table t ! i) = total_entries t + length c'"
proof -
  obtain X Y where s: "table t = X @ table t ! i # Y" "\<forall>c'. (table t)[i := c'] = X @ c' # Y"
    using table_split[OF assms(1)] by blast
  have "total_entries t = sum_list (map length X) + length (table t ! i) + sum_list (map length Y)"
    unfolding total_entries_def by (subst s(1)) simp
  moreover have "total_entries t' = sum_list (map length X) + length c' + sum_list (map length Y)"
    by (simp add: total_entries_def assms(2) s(2))
  ultimately show ?thesis by simp
qed

lemma nonempty_buckets_update:
  assumes "i < length (table t)" and "table t' = (table t)[i := c']"
  shows "nonempty_buckets t' + (if table t ! i = [] then 0 else 1) =
         nonempty_buckets t + (if c' = [] then 0 else 1)"
proof -
  obtain X Y where s: "table t = X @ table t ! i # Y" "\<forall>c'. (table t)[i := c'] = X @ c' # Y"
    using table_split[OF assms(1)] by blast
  have "nonempty_buckets t = length (filter (\<lambda>c. c \<noteq> []) X) +
      (if table t ! i = [] then 0 else 1) + length (filter (\<lambda>c. c \<noteq> []) Y)"
    unfolding nonempty_buckets_def by (subst s(1)) simp
  moreover have "nonempty_buckets t' = length (filter (\<lambda>c. c \<noteq> []) X) +
      (if c' = [] then 0 else 1) + length (filter (\<lambda>c. c \<noteq> []) Y)"
    by (simp add: nonempty_buckets_def assms(2) s(2))
  ultimately show ?thesis by simp
qed

lemma chain_beyond_head:
  assumes "i < length (table t)"
  shows "nonempty_buckets t + length (table t ! i) \<le>
         total_entries t + (if table t ! i = [] then 0 else 1)"
proof -
  obtain X Y where s: "table t = X @ table t ! i # Y"
    using table_split[OF assms(1)] by blast
  have "total_entries t = sum_list (map length X) + length (table t ! i) + sum_list (map length Y)"
    unfolding total_entries_def by (subst s(1)) simp
  moreover have "nonempty_buckets t = length (filter (\<lambda>c. c \<noteq> []) X) +
      (if table t ! i = [] then 0 else 1) + length (filter (\<lambda>c. c \<noteq> []) Y)"
    unfolding nonempty_buckets_def by (subst s(1)) simp
  moreover have "length (filter (\<lambda>c. c \<noteq> []) X) \<le> sum_list (map length X)"
    "length (filter (\<lambda>c. c \<noteq> []) Y) \<le> sum_list (map length Y)"
    by (rule nonempty_le_total)+
  ultimately show ?thesis by simp
qed

section \<open>Insert and delete keep the counters consistent\<close>

lemma counters_consistentI:
  "nonempty_buckets t' = n \<Longrightarrow> total_entries t' = m \<Longrightarrow> different_entries t' = of_nat n \<Longrightarrow>
   collisions t' = of_nat (m - n) \<Longrightarrow> counters_consistent t'"
  by (simp add: counters_consistent_def)

lemma insert_keeps_counters:
  assumes "valid t" and "length k \<le> 64" and "counters_consistent t"
  shows "\<exists>t' e. hashtable_insert (Some t) (Some k) v = Inr (Some t', Some e) \<and>
           valid t' \<and> counters_consistent t' \<and> size_ht t' = size_ht t"
  using assms(1,2)
proof (cases rule: insert_outcome[where v = v])
  case (empty hash)
  let ?t' = "t\<lparr>table := (table t)[unat hash := [\<lparr>key = k, val = v\<rparr>]],
                      different_entries := different_entries t + 1\<rparr>"
  have tot: "total_entries ?t' = total_entries t + 1"
    using total_entries_update[OF empty(2), of ?t' "[\<lparr>key = k, val = v\<rparr>]"] empty(3) by simp
  have ne: "nonempty_buckets ?t' = nonempty_buckets t + 1"
    using nonempty_buckets_update[OF empty(2), of ?t' "[\<lparr>key = k, val = v\<rparr>]"] empty(3) by simp
  have "counters_consistent ?t'"
    using assms(3) unfolding counters_consistent_def tot ne by simp
  moreover have "valid ?t'" using assms(1) by (simp add: valid_def)
  ultimately show ?thesis using empty(4) by simp
next
  case (found hash pre e post)
  let ?t' = "t\<lparr>table := (table t)[unat hash := pre @ e\<lparr>val := v\<rparr> # post]\<rparr>"
  have tot: "total_entries ?t' = total_entries t"
    using total_entries_update[OF found(2), of ?t' "pre @ e\<lparr>val := v\<rparr> # post"] found(3) by simp
  have ne: "nonempty_buckets ?t' = nonempty_buckets t"
    using nonempty_buckets_update[OF found(2), of ?t' "pre @ e\<lparr>val := v\<rparr> # post"] found(3) by simp
  have "counters_consistent ?t'"
    using assms(3) unfolding counters_consistent_def tot ne by simp
  moreover have "valid ?t'" using assms(1) by (simp add: valid_def)
  ultimately show ?thesis using found(6) by simp
next
  case (append hash)
  let ?c' = "table t ! unat hash @ [\<lparr>key = k, val = v\<rparr>]"
  let ?t' = "t\<lparr>table := (table t)[unat hash := ?c'], collisions := collisions t + 1\<rparr>"
  have tot: "total_entries ?t' = total_entries t + 1"
    using total_entries_update[OF append(2), of ?t' ?c'] by simp
  have ne: "nonempty_buckets ?t' = nonempty_buckets t"
    using nonempty_buckets_update[OF append(2), of ?t' ?c'] append(3) by simp
  have le: "nonempty_buckets t \<le> total_entries t"
    using chain_beyond_head[OF append(2)] append(3) by (cases "table t ! unat hash") auto
  have "total_entries t + 1 - nonempty_buckets t = Suc (total_entries t - nonempty_buckets t)"
    using le by simp
  then have "counters_consistent ?t'"
    using assms(3) unfolding counters_consistent_def tot ne by simp
  moreover have "valid ?t'" using assms(1) by (simp add: valid_def)
  ultimately show ?thesis using append(5) by simp
qed

lemma delete_keeps_counters:
  assumes "valid t" and "counters_consistent t"
  shows "\<exists>t' r. hashtable_delete (Some t) (Some k) = Inr (Some t', r) \<and>
           valid t' \<and> counters_consistent t' \<and> size_ht t' = size_ht t"
  using assms(1)
proof (cases rule: delete_outcome[where k = k])
  case (absent hash)
  then show ?thesis using assms by simp
next
  case (sole hash e)
  let ?t' = "t\<lparr>table := (table t)[unat hash := []],
                      different_entries := different_entries t - 1\<rparr>"
  obtain n m where nm: "nonempty_buckets ?t' = n" "total_entries ?t' = m" by simp
  have tot: "total_entries t = m + 1"
    using total_entries_update[OF sole(2), of ?t' "[]"] sole(3) nm(2) by simp
  have ne: "nonempty_buckets t = n + 1"
    using nonempty_buckets_update[OF sole(2), of ?t' "[]"] sole(3) nm(1) by simp
  have "different_entries t = of_nat (n + 1)" "collisions t = of_nat (m - n)"
    using assms(2) unfolding counters_consistent_def tot ne by simp_all
  then have "different_entries ?t' = of_nat n" "collisions ?t' = of_nat (m - n)" by simp_all
  with nm have "counters_consistent ?t'" by (rule counters_consistentI)
  moreover have "valid ?t'" using assms(1) by (simp add: valid_def)
  ultimately show ?thesis using sole(5) by simp
next
  case (shorter hash pre e post)
  let ?t' = "t\<lparr>table := (table t)[unat hash := pre @ post], collisions := collisions t - 1\<rparr>"
  obtain n m where nm: "nonempty_buckets ?t' = n" "total_entries ?t' = m" by simp
  have tot: "total_entries t = m + 1"
    using total_entries_update[OF shorter(2), of ?t' "pre @ post"] shorter(3) nm(2) by simp
  have ne: "nonempty_buckets t = n"
    using nonempty_buckets_update[OF shorter(2), of ?t' "pre @ post"] shorter(3,6) nm(1)
    by (cases "pre = [] \<and> post = []") auto
  have pos: "1 \<le> length (pre @ post)" using shorter(6) by (cases "pre @ post") auto
  have "n + (length (pre @ post) + 1) \<le> m + 1 + 1"
    using chain_beyond_head[OF shorter(2)] shorter(3) tot ne by simp
  with pos have le: "n \<le> m" by arith
  then have "m + 1 - n = Suc (m - n)" by simp
  then have "different_entries t = of_nat n" "collisions t = of_nat (m - n) + 1"
    using assms(2) unfolding counters_consistent_def tot ne by simp_all
  then have "different_entries ?t' = of_nat n" "collisions ?t' = of_nat (m - n)" by simp_all
  with nm have "counters_consistent ?t'" by (rule counters_consistentI)
  moreover have "valid ?t'" using assms(1) by (simp add: valid_def)
  ultimately show ?thesis using shorter(7) by simp
qed

lemma newhashtable_consistent:
  assumes "hashtable_newhashtable sz = Some t"
  shows "valid t" and "counters_consistent t" and "total_entries t = 0" and "keys_of t = {}"
  using assms
  by (auto simp: hashtable_newhashtable_def valid_def counters_consistent_def total_entries_def
      nonempty_buckets_def keys_of_def not_less sum_list_replicate split: if_splits)

lemma do_calls_keep_counters:
  assumes "valid t" and "counters_consistent t" and "\<forall>c \<in> set cs. fits_buffer c"
  shows "\<exists>t'. do_calls (Some t) cs = Inr (Some t') \<and> valid t' \<and> counters_consistent t'"
  using assms
proof (induction cs arbitrary: t)
  case Nil
  then show ?case by simp
next
  case (Cons c cs)
  have "\<exists>t1. do_call (Some t) c = Inr (Some t1) \<and> valid t1 \<and> counters_consistent t1"
  proof (cases c)
    case (Insert k v)
    with Cons.prems(3) have "length k \<le> 64" by simp
    from insert_keeps_counters[OF Cons.prems(1) this Cons.prems(2), of v] Insert
    show ?thesis by auto
  next
    case (Delete k)
    from delete_keeps_counters[OF Cons.prems(1,2), of k] Delete
    show ?thesis by auto
  qed
  then obtain t1 where t1: "do_call (Some t) c = Inr (Some t1)" "valid t1" "counters_consistent t1"
    by blast
  from Cons.IH[OF t1(2,3)] Cons.prems(3) t1(1) show ?case by simp
qed

lemma nonempty_le_size: "valid t \<Longrightarrow> nonempty_buckets t \<le> unat (size_ht t)"
  using length_filter_le[of "\<lambda>c. c \<noteq> []" "table t"] by (simp add: valid_def nonempty_buckets_def)

lemma nonempty_le_total_entries: "nonempty_buckets t \<le> total_entries t"
  unfolding nonempty_buckets_def total_entries_def by (rule nonempty_le_total)

lemma consistent_readings:
  assumes "valid t" and "counters_consistent t"
  shows "unat (different_entries t) = nonempty_buckets t"
    and "word_of_nat (total_entries t) = different_entries t + collisions t"
    and "total_entries t < 2 ^ 32 \<Longrightarrow> unat (collisions t) = total_entries t - nonempty_buckets t"
    and "total_entries t < 2 ^ 32 \<Longrightarrow> total_entries t = unat (different_entries t) + unat (collisions t)"
proof -
  have d: "different_entries t = of_nat (nonempty_buckets t)"
    and q: "collisions t = of_nat (total_entries t - nonempty_buckets t)"
    using assms(2) by (simp_all add: counters_consistent_def)
  show 1: "unat (different_entries t) = nonempty_buckets t"
    unfolding d using nonempty_le_size[OF assms(1)] by (rule le_unat_uoi)
  have "word_of_nat (total_entries t) =
      (word_of_nat (nonempty_buckets t + (total_entries t - nonempty_buckets t)) :: u32)"
    using nonempty_le_total_entries[of t] by simp
  then show "word_of_nat (total_entries t) = different_entries t + collisions t"
    unfolding d q by (simp only: of_nat_add)
  {
    assume b: "total_entries t < 2 ^ 32"
    then have "total_entries t - nonempty_buckets t < 2 ^ LENGTH(32)" by simp
    then show 3: "unat (collisions t) = total_entries t - nonempty_buckets t"
      unfolding q by (simp only: unat_of_nat take_bit_nat_eq_self_iff[THEN iffD2] flip: take_bit_eq_mod)
    with 1 nonempty_le_total_entries[of t]
    show "total_entries t = unat (different_entries t) + unat (collisions t)" by simp
  }
qed

lemma newhashtable_2:
  "hashtable_newhashtable 2 =
      Some \<lparr>size_ht = 2, different_entries = 0, collisions = 0, table = [[], []]\<rparr>"
proof -
  have "replicate (2::nat) ([]::chain) = [[], []]"
    by (simp add: numeral_2_eq_2)
  then show ?thesis by (simp add: hashtable_newhashtable_def)
qed

section \<open>The counter invariant\<close>

text \<open>
  Claim C2: after any sequence of insert and delete calls on a table made by
  \<^verbatim>\<open>hashtable_newhashtable\<close> (non-null keys, inserted keys of at most 64
  characters), \<^verbatim>\<open>collisions\<close> is the number of entries in all buckets minus the
  number of non-empty buckets, \<^verbatim>\<open>different_entries\<close> is the number of non-empty
  buckets, and the number of entries is \<^verbatim>\<open>different_entries + collisions\<close>. The
  counters are 32-bit: the equalities hold in their arithmetic, and between the numbers
  themselves as long as there are fewer than \<open>2 ^ 32\<close> entries.
\<close>

theorem counters_invariant:
  assumes "hashtable_newhashtable sz = Some t0" and "\<forall>c \<in> set cs. fits_buffer c"
  shows "\<exists>t. do_calls (Some t0) cs = Inr (Some t) \<and>
     different_entries t = of_nat (nonempty_buckets t) \<and>
     collisions t = of_nat (total_entries t - nonempty_buckets t) \<and>
     of_nat (total_entries t) = different_entries t + collisions t \<and>
     unat (different_entries t) = nonempty_buckets t \<and>
     (total_entries t < 2 ^ 32 \<longrightarrow>
        unat (collisions t) = total_entries t - nonempty_buckets t \<and>
        total_entries t = unat (different_entries t) + unat (collisions t))"
proof -
  have "valid t0" "counters_consistent t0"
    using assms(1) by (rule newhashtable_consistent)+
  from do_calls_keep_counters[OF this assms(2)]
  obtain t where t: "do_calls (Some t0) cs = Inr (Some t)" "valid t" "counters_consistent t"
    by blast
  show ?thesis
    using t(1) t(3) consistent_readings[OF t(2,3)]
    by (auto simp: counters_consistent_def)
qed

theorem counters_invariant_witness:
  "\<exists>t. do_calls (hashtable_newhashtable 2)
          [Insert ''a'' 1, Insert ''c'' 2, Insert ''b'' 3, Delete ''a''] = Inr (Some t) \<and>
       table t = [[\<lparr>key = ''b'', val = 3\<rparr>], [\<lparr>key = ''c'', val = 2\<rparr>]] \<and>
       nonempty_buckets t = 2 \<and> total_entries t = 2 \<and>
       unat (different_entries t) = 2 \<and> unat (collisions t) = 0"
proof -
  note n = newhashtable_2
  have f: "\<forall>c \<in> set [Insert ''a'' 1, Insert ''c'' 2, Insert ''b'' 3, Delete ''a'']. fits_buffer c"
    by simp
  have r: "do_calls (Some \<lparr>size_ht = 2, different_entries = 0, collisions = 0, table = [[], []]\<rparr>)
          [Insert ''a'' 1, Insert ''c'' 2, Insert ''b'' 3, Delete ''a''] =
        Inr (Some \<lparr>size_ht = 2, different_entries = 2, collisions = 0,
          table = [[\<lparr>key = ''b'', val = 3\<rparr>], [\<lparr>key = ''c'', val = 2\<rparr>]]\<rparr>)"
    by (simp add: hashtable_insert_def hashtable_delete_def small_hashes hashtable_newentry_def
        chain_of_def insert_search.simps through_int_id)
  show ?thesis
    using counters_invariant[OF n f] unfolding n r
    by (simp add: nonempty_buckets_def total_entries_def)
qed

section \<open>Insert changes one bucket\<close>

text \<open>
  Claim C9: insert on a well-formed table with a key of at most 64 characters changes
  at most the chain of the bucket the key hashes to: the table after the call is the
  table before with that one bucket replaced, so every other bucket and every entry in
  it is as before, and the number of buckets is the same.
\<close>

theorem insert_touches_one_bucket:
  assumes "valid t" and "length k \<le> 64"
  shows "\<exists>hash t' e c'. hashtable_gethash (size_ht t) k = Inr hash \<and> unat hash < length (table t) \<and>
     hashtable_insert (Some t) (Some k) v = Inr (Some t', Some e) \<and>
     size_ht t' = size_ht t \<and> table t' = (table t)[unat hash := c'] \<and>
     length (table t') = length (table t) \<and>
     (\<forall>i < length (table t). i \<noteq> unat hash \<longrightarrow> table t' ! i = table t ! i)"
  using assms
proof (cases rule: insert_outcome[where v = v])
  case (empty hash)
  then show ?thesis by auto
next
  case (found hash pre e post)
  then show ?thesis by auto
next
  case (append hash)
  then show ?thesis by auto
qed

theorem insert_touches_one_bucket_witness:
  "\<exists>t' e. hashtable_insert (Some two_bucket_table) (Some ''e'') 5 = Inr (Some t', Some e) \<and>
     size_ht t' = 2 \<and> length (table t') = 2 \<and> table t' ! 0 = table two_bucket_table ! 0 \<and>
     table t' ! 1 = [\<lparr>key = ''a'', val = 1\<rparr>, \<lparr>key = ''c'', val = 2\<rparr>, \<lparr>key = ''e'', val = 5\<rparr>]"
proof -
  have l: "length ''e'' \<le> 64" by simp
  from insert_touches_one_bucket[OF valid_two_bucket_table l, of 5]
  obtain hash t' e c' where h: "hashtable_gethash (size_ht two_bucket_table) ''e'' = Inr hash"
    "hashtable_insert (Some two_bucket_table) (Some ''e'') 5 = Inr (Some t', Some e)"
    "size_ht t' = size_ht two_bucket_table" "length (table t') = length (table two_bucket_table)"
    "\<forall>i < length (table two_bucket_table). i \<noteq> unat hash \<longrightarrow> table t' ! i = table two_bucket_table ! i"
    by blast
  from h(1) have "hash = 1" by (simp add: two_bucket_table_def small_hashes)
  with h(5) have "table t' ! 0 = table two_bucket_table ! 0" by (simp add: two_bucket_table_def)
  moreover have "hashtable_insert (Some two_bucket_table) (Some ''e'') 5 =
     Inr (Some \<lparr>size_ht = 2, different_entries = 1, collisions = 2,
            table = [[], [\<lparr>key = ''a'', val = 1\<rparr>, \<lparr>key = ''c'', val = 2\<rparr>, \<lparr>key = ''e'', val = 5\<rparr>]]\<rparr>,
          Some \<lparr>key = ''e'', val = 5\<rparr>)"
    by (simp add: hashtable_insert_def two_bucket_table_def small_hashes hashtable_newentry_def
        chain_of_def insert_search.simps)
  ultimately show ?thesis using h(2,3,4) by (auto simp: two_bucket_table_def)
qed

section \<open>Inserting a key that is already there\<close>

lemma insert_makes_present:
  assumes "valid t" and "length k \<le> 64"
  shows "\<exists>hash t1 e1. hashtable_gethash (size_ht t) k = Inr hash \<and>
     hashtable_insert (Some t) (Some k) v = Inr (Some t1, Some e1) \<and>
     valid t1 \<and> size_ht t1 = size_ht t \<and> k \<in> key ` set (table t1 ! unat hash)"
  using assms
proof (cases rule: insert_outcome[where v = v])
  case (empty hash)
  then show ?thesis using assms(1) by (auto simp: valid_def)
next
  case (found hash pre e post)
  then show ?thesis using assms(1) by (auto simp: valid_def)
next
  case (append hash)
  then show ?thesis using assms(1) by (auto simp: valid_def)
qed

lemma update_present:
  assumes "valid t" and "hashtable_gethash (size_ht t) k = Inr hash"
    and "k \<in> key ` set (table t ! unat hash)"
  shows "\<exists>t' e. hashtable_insert (Some t) (Some k) v = Inr (Some t', Some e) \<and>
     hashtable_get (Some t') (Some k) = Inr (Some e) \<and> key e = k \<and> val e = v \<and>
     different_entries t' = different_entries t \<and> collisions t' = collisions t \<and>
     valid t' \<and> size_ht t' = size_ht t \<and> k \<in> key ` set (table t' ! unat hash)"
proof -
  obtain hash' where "hashtable_gethash (size_ht t) k = Inr hash'" "unat hash' < length (table t)"
    using assms(1) by (rule valid_gethash)
  with assms(2) have b: "unat hash < length (table t)" by simp
  from assms(3) obtain pre e post where d: "table t ! unat hash = pre @ e # post" "key e = k"
    "k \<notin> key ` set pre" by (rule first_occurrence)
  let ?t' = "t\<lparr>table := (table t)[unat hash := pre @ e\<lparr>val := v\<rparr> # post]\<rparr>"
  have i: "hashtable_insert (Some t) (Some k) v = Inr (Some ?t', Some (e\<lparr>val := v\<rparr>))"
    using assms(2) b d by (rule insert_found)
  have g: "hashtable_get (Some ?t') (Some k) = Inr (Some (e\<lparr>val := v\<rparr>))"
  proof (rule get_found)
    show "hashtable_gethash (size_ht ?t') k = Inr hash" using assms(2) by simp
    show "unat hash < length (table ?t')" using b by simp
    show "table ?t' ! unat hash = pre @ e\<lparr>val := v\<rparr> # post" using b by simp
    show "key (e\<lparr>val := v\<rparr>) = k" using d(2) by simp
    show "k \<notin> key ` set pre" by (rule d(3))
  qed
  have "valid ?t'" using assms(1) by (simp add: valid_def)
  moreover have "k \<in> key ` set (table ?t' ! unat hash)" using b d(2) by force
  ultimately show ?thesis using i g d(2) by simp
qed

lemma updates_keep_counters:
  assumes "valid t" and "hashtable_gethash (size_ht t) k = Inr hash"
    and "k \<in> key ` set (table t ! unat hash)"
  shows "\<exists>t'. do_calls (Some t) (map (Insert k) vs) = Inr (Some t') \<and>
     different_entries t' = different_entries t \<and> collisions t' = collisions t"
  using assms
proof (induction vs arbitrary: t)
  case Nil
  then show ?case by simp
next
  case (Cons v vs)
  from update_present[OF Cons.prems, of v]
  obtain t1 e where t1: "hashtable_insert (Some t) (Some k) v = Inr (Some t1, Some e)"
    "different_entries t1 = different_entries t" "collisions t1 = collisions t"
    "valid t1" "size_ht t1 = size_ht t" "k \<in> key ` set (table t1 ! unat hash)"
    by blast
  have "hashtable_gethash (size_ht t1) k = Inr hash" using Cons.prems(2) t1(5) by simp
  from Cons.IH[OF t1(4) this t1(6)] t1(1,2,3) show ?case by simp
qed

text \<open>
  Claim C6: after a first insert of a key, a second insert of the same key is an update:
  lookup then returns the entry with the second value, and both counters are what they
  were before the second call. The same holds for any number of further inserts of the
  key, whatever the values.
\<close>

theorem insert_again_updates:
  assumes "valid t" and "length k \<le> 64"
  shows "\<exists>t1 e1. hashtable_insert (Some t) (Some k) v1 = Inr (Some t1, Some e1) \<and>
     (\<exists>t2 e2. hashtable_insert (Some t1) (Some k) v2 = Inr (Some t2, Some e2) \<and>
        hashtable_get (Some t2) (Some k) = Inr (Some e2) \<and> key e2 = k \<and> val e2 = v2 \<and>
        different_entries t2 = different_entries t1 \<and> collisions t2 = collisions t1) \<and>
     (\<exists>tn. do_calls (Some t1) (map (Insert k) vs) = Inr (Some tn) \<and>
        different_entries tn = different_entries t1 \<and> collisions tn = collisions t1)"
proof -
  from insert_makes_present[OF assms, of v1]
  obtain hash t1 e1 where t1: "hashtable_gethash (size_ht t) k = Inr hash"
    "hashtable_insert (Some t) (Some k) v1 = Inr (Some t1, Some e1)"
    "valid t1" "size_ht t1 = size_ht t" "k \<in> key ` set (table t1 ! unat hash)"
    by blast
  have h: "hashtable_gethash (size_ht t1) k = Inr hash" using t1(1,4) by simp
  from update_present[OF t1(3) h t1(5), of v2] updates_keep_counters[OF t1(3) h t1(5), of vs] t1(2)
  show ?thesis by blast
qed

theorem insert_again_updates_witness:
  "hashtable_insert (Some two_bucket_table) (Some ''e'') 5 =
     Inr (Some \<lparr>size_ht = 2, different_entries = 1, collisions = 2,
            table = [[], [\<lparr>key = ''a'', val = 1\<rparr>, \<lparr>key = ''c'', val = 2\<rparr>, \<lparr>key = ''e'', val = 5\<rparr>]]\<rparr>,
          Some \<lparr>key = ''e'', val = 5\<rparr>) \<and>
   (\<exists>t2. hashtable_insert (Some \<lparr>size_ht = 2, different_entries = 1, collisions = 2,
            table = [[], [\<lparr>key = ''a'', val = 1\<rparr>, \<lparr>key = ''c'', val = 2\<rparr>, \<lparr>key = ''e'', val = 5\<rparr>]]\<rparr>)
         (Some ''e'') 6 = Inr (Some t2, Some \<lparr>key = ''e'', val = 6\<rparr>) \<and>
      hashtable_get (Some t2) (Some ''e'') = Inr (Some \<lparr>key = ''e'', val = 6\<rparr>) \<and>
      different_entries t2 = 1 \<and> collisions t2 = 2)"
proof -
  have l: "length ''e'' \<le> 64" by simp
  have i: "hashtable_insert (Some two_bucket_table) (Some ''e'') 5 =
     Inr (Some \<lparr>size_ht = 2, different_entries = 1, collisions = 2,
            table = [[], [\<lparr>key = ''a'', val = 1\<rparr>, \<lparr>key = ''c'', val = 2\<rparr>, \<lparr>key = ''e'', val = 5\<rparr>]]\<rparr>,
          Some \<lparr>key = ''e'', val = 5\<rparr>)"
    by (simp add: hashtable_insert_def two_bucket_table_def small_hashes hashtable_newentry_def
        chain_of_def insert_search.simps)
  show ?thesis
    using insert_again_updates[OF valid_two_bucket_table l, of 5 6 "[]"] unfolding i
    by auto
qed

section \<open>Inserting keys that are not in the table\<close>

lemma bucket_keys_subset:
  assumes "i < length (table t)"
  shows "key ` set (table t ! i) \<subseteq> keys_of t"
proof -
  have "table t ! i \<in> set (table t)" using assms by simp
  then show ?thesis unfolding keys_of_def by auto
qed

lemma keys_of_update:
  assumes "i < length (table t)" and "table t' = (table t)[i := c']"
    and "set (table t ! i) \<subseteq> set c'"
  shows "keys_of t' = keys_of t \<union> key ` set c'"
proof -
  obtain X Y where s: "table t = X @ table t ! i # Y" "\<forall>c'. (table t)[i := c'] = X @ c' # Y"
    using table_split[OF assms(1)] by blast
  have "keys_of t = key ` set (concat X) \<union> key ` set (table t ! i) \<union> key ` set (concat Y)"
    unfolding keys_of_def by (subst s(1)) (simp add: image_Un Un_assoc)
  moreover have "keys_of t' = key ` set (concat X) \<union> key ` set c' \<union> key ` set (concat Y)"
    by (simp add: keys_of_def assms(2) s(2) image_Un Un_assoc)
  ultimately show ?thesis using assms(3) by auto
qed

lemma well_placed_update:
  assumes "well_placed t" and "i < length (table t)" and "table t' = (table t)[i := c']"
    and "size_ht t' = size_ht t"
    and "\<forall>e \<in> set c'. hashtable_gethash (size_ht t) (key e) = Inr (of_nat i)"
  shows "well_placed t'"
  unfolding well_placed_def
proof (intro allI impI ballI)
  fix j e assume j: "j < length (table t')" and e: "e \<in> set (table t' ! j)"
  show "hashtable_gethash (size_ht t') (key e) = Inr (of_nat j)"
  proof (cases "j = i")
    case True
    with e assms(2,3) have "e \<in> set c'" by simp
    with assms(4,5) True show ?thesis by simp
  next
    case False
    with e j assms(3) have "j < length (table t)" "e \<in> set (table t ! j)" by simp_all
    with assms(1,4) show ?thesis by (simp add: well_placed_def)
  qed
qed

lemma fresh_insert:
  assumes "valid t" and "length k \<le> 64" and "k \<notin> keys_of t" and "well_placed t"
  shows "\<exists>t' e. hashtable_insert (Some t) (Some k) v = Inr (Some t', Some e) \<and>
     well_placed t' \<and> keys_of t' = insert k (keys_of t) \<and> total_entries t' = total_entries t + 1"
  using assms(1,2)
proof (cases rule: insert_outcome[where v = v])
  case (empty hash)
  let ?c' = "[\<lparr>key = k, val = v\<rparr>]"
  let ?t' = "t\<lparr>table := (table t)[unat hash := ?c'], different_entries := different_entries t + 1\<rparr>"
  have "total_entries ?t' = total_entries t + 1"
    using total_entries_update[OF empty(2), of ?t' ?c'] empty(3) by simp
  moreover have "keys_of ?t' = insert k (keys_of t)"
    using keys_of_update[OF empty(2), of ?t' ?c'] empty(3) by simp
  moreover have "well_placed ?t'"
    using assms(4) empty(2) by (rule well_placed_update[where c' = ?c']) (simp_all add: empty(1))
  ultimately show ?thesis using empty(4) by simp
next
  case (found hash pre e post)
  have "k \<in> key ` set (table t ! unat hash)" using found(3,4) by force
  with bucket_keys_subset[OF found(2)] assms(3) show ?thesis by blast
next
  case (append hash)
  let ?c' = "table t ! unat hash @ [\<lparr>key = k, val = v\<rparr>]"
  let ?t' = "t\<lparr>table := (table t)[unat hash := ?c'], collisions := collisions t + 1\<rparr>"
  have "total_entries ?t' = total_entries t + 1"
    using total_entries_update[OF append(2), of ?t' ?c'] by simp
  moreover have "keys_of ?t' = insert k (keys_of t)"
    using keys_of_update[OF append(2), of ?t' ?c'] bucket_keys_subset[OF append(2)] by auto
  moreover have "well_placed ?t'"
    using assms(4) append(2)
  proof (rule well_placed_update[where c' = ?c'])
    show "\<forall>e \<in> set ?c'. hashtable_gethash (size_ht t) (key e) = Inr (of_nat (unat hash))"
      using assms(4) append(1,2) by (auto simp: well_placed_def)
  qed simp_all
  ultimately show ?thesis using append(5) by simp
qed

lemma nonempty_card:
  assumes "valid t" and "well_placed t"
  shows "nonempty_buckets t = card (hashtable_gethash (size_ht t) ` keys_of t)"
proof -
  let ?f = "\<lambda>i. (Inr (of_nat i) :: fault + u32)"
  let ?I = "{i. i < length (table t) \<and> table t ! i \<noteq> []}"
  have 1: "nonempty_buckets t = card ?I"
    by (simp add: nonempty_buckets_def length_filter_conv_card)
  have 2: "hashtable_gethash (size_ht t) ` keys_of t = ?f ` ?I"
  proof (intro set_eqI iffI)
    fix x assume "x \<in> hashtable_gethash (size_ht t) ` keys_of t"
    then obtain e c where x: "x = hashtable_gethash (size_ht t) (key e)" "e \<in> set c" "c \<in> set (table t)"
      by (auto simp: keys_of_def)
    from x(3) obtain i where i: "i < length (table t)" "table t ! i = c"
      by (auto simp: in_set_conv_nth)
    with x(2) assms(2) have "hashtable_gethash (size_ht t) (key e) = Inr (of_nat i)"
      by (auto simp: well_placed_def)
    moreover have "i \<in> ?I" using i x(2) by auto
    ultimately show "x \<in> ?f ` ?I" using x(1) by blast
  next
    fix x assume "x \<in> ?f ` ?I"
    then obtain i where i: "x = Inr (of_nat i)" "i < length (table t)" "table t ! i \<noteq> []" by auto
    then obtain e where e: "e \<in> set (table t ! i)" by (cases "table t ! i") auto
    with i(2) assms(2) have "hashtable_gethash (size_ht t) (key e) = Inr (of_nat i)"
      by (auto simp: well_placed_def)
    moreover have "key e \<in> keys_of t" using bucket_keys_subset[OF i(2)] e by auto
    ultimately show "x \<in> hashtable_gethash (size_ht t) ` keys_of t" using i(1) by force
  qed
  have 3: "inj_on ?f ?I"
  proof (rule inj_onI)
    fix i j assume I: "i \<in> ?I" "j \<in> ?I" and eq: "?f i = ?f j"
    have le: "i \<le> unat (size_ht t)" "j \<le> unat (size_ht t)"
      using I assms(1) by (auto simp: valid_def)
    have ui: "unat (of_nat i :: u32) = i" using le(1) by (rule le_unat_uoi)
    have uj: "unat (of_nat j :: u32) = j" using le(2) by (rule le_unat_uoi)
    from eq have w: "(of_nat i :: u32) = of_nat j" by (simp only: sum.inject)
    have "i = unat (of_nat i :: u32)" by (simp only: ui)
    also have "\<dots> = unat (of_nat j :: u32)" by (simp only: w)
    also have "\<dots> = j" by (rule uj)
    finally show "i = j" .
  qed
  show ?thesis unfolding 1 2 using 3 by (simp add: card_image)
qed

lemma fresh_inserts:
  assumes "valid t" and "counters_consistent t" and "well_placed t" and "distinct (map fst kvs)"
    and "\<forall>k \<in> fst ` set kvs. length k \<le> 64 \<and> k \<notin> keys_of t"
  shows "\<exists>t'. do_calls (Some t) (map (case_prod Insert) kvs) = Inr (Some t') \<and>
     valid t' \<and> counters_consistent t' \<and> well_placed t' \<and> size_ht t' = size_ht t \<and>
     keys_of t' = keys_of t \<union> fst ` set kvs \<and> total_entries t' = total_entries t + length kvs"
  using assms
proof (induction kvs arbitrary: t)
  case Nil
  then show ?case by simp
next
  case (Cons kv kvs)
  obtain k v where kv: "kv = (k, v)" by (cases kv)
  have l: "length k \<le> 64" and f: "k \<notin> keys_of t" using Cons.prems(5) kv by simp_all
  from insert_keeps_counters[OF Cons.prems(1) l Cons.prems(2), of v]
  obtain t1 e where t1: "hashtable_insert (Some t) (Some k) v = Inr (Some t1, Some e)"
    "valid t1" "counters_consistent t1" "size_ht t1 = size_ht t" by blast
  from fresh_insert[OF Cons.prems(1) l f Cons.prems(3), of v] t1(1)
  have t1': "well_placed t1" "keys_of t1 = insert k (keys_of t)"
    "total_entries t1 = total_entries t + 1" by auto
  have d: "distinct (map fst kvs)" using Cons.prems(4) by simp
  have "\<forall>k' \<in> fst ` set kvs. length k' \<le> 64 \<and> k' \<notin> keys_of t1"
    using Cons.prems(4,5) kv t1'(2) by auto
  from Cons.IH[OF t1(2,3) t1'(1) d this]
  obtain t' where t': "do_calls (Some t1) (map (case_prod Insert) kvs) = Inr (Some t')"
    "valid t'" "counters_consistent t'" "well_placed t'" "size_ht t' = size_ht t1"
    "keys_of t' = keys_of t1 \<union> fst ` set kvs" "total_entries t' = total_entries t1 + length kvs"
    by blast
  have "do_calls (Some t) (map (case_prod Insert) (kv # kvs)) = Inr (Some t')"
    using t1(1) t'(1) kv by simp
  moreover have "keys_of t' = keys_of t \<union> fst ` set (kv # kvs)"
    using t'(6) t1'(2) kv by auto
  moreover have "total_entries t' = total_entries t + length (kv # kvs)"
    using t'(7) t1'(3) by simp
  ultimately show ?case using t'(2,3,4,5) t1(4) by simp
qed

lemma newhashtable_well_placed:
  "hashtable_newhashtable sz = Some t \<Longrightarrow> well_placed t \<and> size_ht t = sz"
  by (auto simp: hashtable_newhashtable_def well_placed_def split: if_splits)

section \<open>The scenario of \<^verbatim>\<open>test_12_strings\<close>\<close>

lemma test_hashes:
  "hashtable_gethash 16 ''8ct4xaucod'' = Inr 7" "hashtable_gethash 16 ''7i2pefipwc'' = Inr 0"
  "hashtable_gethash 16 ''mmnoy7c6yq'' = Inr 10" "hashtable_gethash 16 ''ouam4phm2c'' = Inr 0"
  "hashtable_gethash 16 ''e2xztziqtj'' = Inr 15" "hashtable_gethash 16 ''wrrw5arl6d'' = Inr 0"
  "hashtable_gethash 16 ''7lc5pgl8kd'' = Inr 5" "hashtable_gethash 16 ''93i5i8sx17'' = Inr 14"
  "hashtable_gethash 16 ''6kkd8e0zq1'' = Inr 9" "hashtable_gethash 16 ''yeqmy6bjmk'' = Inr 15"
  "hashtable_gethash 16 ''hn1gybiuy6'' = Inr 6" "hashtable_gethash 16 ''5wr2vyui8t'' = Inr 9"
  by (simp_all add: hashtable_gethash_def char_int_def)

lemma newhashtable_16:
  "hashtable_newhashtable 16 =
      Some \<lparr>size_ht = 16, different_entries = 0, collisions = 0,
        table = [[], [], [], [], [], [], [], [], [], [], [], [], [], [], [], []]\<rparr>"
proof -
  have "replicate (16::nat) ([]::chain) = [[], [], [], [], [], [], [], [], [], [], [], [], [], [], [], []]"
    by (simp add: eval_nat_numeral)
  then show ?thesis by (simp add: hashtable_newhashtable_def)
qed

lemma test_keys_distinct: "distinct test_keys" "length test_keys = 12"
  by (simp_all add: test_keys_def)

lemma test_run:
  "counters_of_result (do_calls (hashtable_newhashtable 16) test_calls) = Some (8, 4)"
  unfolding newhashtable_16
  by (simp add: test_calls_def test_pairs_def test_keys_def counters_of_result_def
      hashtable_insert_def test_hashes hashtable_newentry_def chain_of_def insert_search.simps)

section \<open>Counting distinct keys\<close>

text \<open>
  Claim C1 as stated: after inserting \<open>n\<close> pairwise distinct keys into a fresh table,
  \<^verbatim>\<open>different_entries\<close> is \<open>n\<close>; twelve distinct keys in a table of size 16
  give 12. The code counts non-empty buckets instead: the twelve keys of
  \<^verbatim>\<open>test_12_strings\<close> are distinct and leave \<^verbatim>\<open>different_entries\<close> at 8 and
  \<^verbatim>\<open>collisions\<close> at 4.
\<close>

theorem twelve_keys_eight_buckets:
  "distinct test_keys \<and> length test_keys = 12 \<and>
   counters_of_result (do_calls (hashtable_newhashtable 16) test_calls) = Some (8, 4) \<and>
   unat (8 :: u32) \<noteq> length test_keys"
  using test_run test_keys_distinct by simp

text \<open>
  Claim C1 as amended: after inserting \<open>n\<close> pairwise distinct keys (each of at most 64
  characters) into a fresh table, the table holds exactly these \<open>n\<close> keys,
  \<^verbatim>\<open>different_entries\<close> is the number of non-empty buckets, which is the number of
  distinct hash values among the keys, and \<^verbatim>\<open>different_entries + collisions\<close> is
  \<open>n\<close> (in 32-bit arithmetic, and as numbers when \<open>n < 2 ^ 32\<close>).
\<close>

theorem distinct_inserts_count:
  assumes "hashtable_newhashtable sz = Some t0" and "distinct (map fst kvs)"
    and "\<forall>k \<in> fst ` set kvs. length k \<le> 64"
  shows "\<exists>t. do_calls (Some t0) (map (case_prod Insert) kvs) = Inr (Some t) \<and>
     keys_of t = fst ` set kvs \<and> total_entries t = length kvs \<and>
     nonempty_buckets t = card (hashtable_gethash sz ` fst ` set kvs) \<and>
     unat (different_entries t) = card (hashtable_gethash sz ` fst ` set kvs) \<and>
     different_entries t + collisions t = of_nat (length kvs) \<and>
     (length kvs < 2 ^ 32 \<longrightarrow> unat (different_entries t) + unat (collisions t) = length kvs)"
proof -
  note n = newhashtable_consistent[OF assms(1)] newhashtable_well_placed[OF assms(1)]
  have "\<forall>k \<in> fst ` set kvs. length k \<le> 64 \<and> k \<notin> keys_of t0"
    using assms(3) n(4) by simp
  from fresh_inserts[OF n(1,2) n(5)[THEN conjunct1] assms(2) this]
  obtain t where t: "do_calls (Some t0) (map (case_prod Insert) kvs) = Inr (Some t)"
    "valid t" "counters_consistent t" "well_placed t" "size_ht t = size_ht t0"
    "keys_of t = keys_of t0 \<union> fst ` set kvs" "total_entries t = total_entries t0 + length kvs"
    by blast
  have k: "keys_of t = fst ` set kvs" and tot: "total_entries t = length kvs"
    using t(6,7) n(3,4) by simp_all
  have s: "size_ht t = sz" using t(5) n(5) by simp
  have ne: "nonempty_buckets t = card (hashtable_gethash sz ` fst ` set kvs)"
    using nonempty_card[OF t(2,4)] unfolding k s .
  note r = consistent_readings[OF t(2,3)]
  have "unat (different_entries t) = card (hashtable_gethash sz ` fst ` set kvs)"
    using r(1) ne by simp
  moreover have "different_entries t + collisions t = of_nat (length kvs)"
    using r(2) tot by simp
  moreover have "length kvs < 2 ^ 32 \<longrightarrow> unat (different_entries t) + unat (collisions t) = length kvs"
    using r(4) tot by simp
  ultimately show ?thesis using t(1) k tot ne by blast
qed

theorem distinct_inserts_count_witness:
  "\<exists>t. do_calls (hashtable_newhashtable 16) (map (case_prod Insert) test_pairs) = Inr (Some t) \<and>
     total_entries t = 12 \<and> nonempty_buckets t = 8 \<and>
     different_entries t = 8 \<and> collisions t = 4 \<and>
     unat (different_entries t) + unat (collisions t) = 12"
proof -
  have d: "distinct (map fst test_pairs)"
    by (simp add: test_pairs_def test_keys_def)
  have l: "\<forall>k \<in> fst ` set test_pairs. length k \<le> 64"
    by (simp add: test_pairs_def test_keys_def)
  have n: "length test_pairs = 12" by (simp add: test_pairs_def test_keys_def)
  from distinct_inserts_count[OF newhashtable_16 d l]
  obtain t where t: "do_calls (hashtable_newhashtable 16) (map (case_prod Insert) test_pairs) = Inr (Some t)"
    "total_entries t = length test_pairs"
    "nonempty_buckets t = card (hashtable_gethash 16 ` fst ` set test_pairs)"
    "unat (different_entries t) = card (hashtable_gethash 16 ` fst ` set test_pairs)"
    "length test_pairs < 2 ^ 32 \<longrightarrow> unat (different_entries t) + unat (collisions t) = length test_pairs"
    unfolding newhashtable_16[symmetric] by blast
  from test_run t(1) have c: "different_entries t = 8" "collisions t = 4"
    by (simp_all add: counters_of_result_def test_calls_def)
  from t(3,4) c(1) have "nonempty_buckets t = 8" by simp
  with t(1,2,5) c n show ?thesis by auto
qed

end
